theory Spec2Isabelle
  imports Complex_Main
begin

section \<open>JavaScript values used by the board\<close>

text \<open>
  The board of \<^verbatim>\<open>src/solari.js\<close> computes with JavaScript numbers, strings and
  arrays. Numbers are modelled as reals: rounding of IEEE doubles, infinities and NaN
  are outside the model. A slot of a JavaScript array holds a number or reads as
  \<^verbatim>\<open>undefined\<close>. A JavaScript string is a sequence of UTF-16 code units; a code unit
  is modelled as a natural number and \<open>str\<close> gives the code units of a literal.
\<close>

datatype jsval = Number real | Undefined

definition js_get :: "jsval list \<Rightarrow> nat \<Rightarrow> jsval" where
  \<comment> \<open>\<^verbatim>\<open>a[k]\<close>: a read past the end gives \<^verbatim>\<open>undefined\<close>.\<close>
  "js_get a k = (if k < length a then a ! k else Undefined)"

definition js_set :: "jsval list \<Rightarrow> nat \<Rightarrow> jsval \<Rightarrow> jsval list" where
  \<comment> \<open>\<^verbatim>\<open>a[k] = x\<close>: a write past the end extends the array, leaving holes.\<close>
  "js_set a k x =
     (if k < length a then a[k := x]
      else a @ replicate (k - length a) Undefined @ [x])"

type_synonym codeunit = nat

type_synonym jsstring = "codeunit list"

definition str :: "string \<Rightarrow> jsstring" where
  "str s = map of_char s"

text \<open>
  \<^verbatim>\<open>String.prototype.toUpperCase\<close> and \<^verbatim>\<open>toLowerCase\<close> map a string code unit by code
  unit here, and one code unit can become several (the sharp s, 223, becomes SS). The
  two tables are JavaScript's on the code units below 256 and on the Kelvin sign, 8490.
  Every other code unit is left as it is, which is not JavaScript's mapping for the
  cased letters beyond 255: on those the model says nothing about the program.
\<close>

definition toUpperCase_unit :: "codeunit \<Rightarrow> jsstring" where
  "toUpperCase_unit c =
     (if 97 \<le> c \<and> c \<le> 122 then [c - 32]
      else if c = 181 then [924]
      else if c = 223 then [83, 83]
      else if 224 \<le> c \<and> c \<le> 254 \<and> c \<noteq> 247 then [c - 32]
      else if c = 255 then [376]
      else [c])"

definition toLowerCase_unit :: "codeunit \<Rightarrow> jsstring" where
  "toLowerCase_unit c =
     (if 65 \<le> c \<and> c \<le> 90 then [c + 32]
      else if 192 \<le> c \<and> c \<le> 222 \<and> c \<noteq> 215 then [c + 32]
      else if c = 8490 then [107]
      else [c])"

definition toUpperCase :: "jsstring \<Rightarrow> jsstring" where
  "toUpperCase s = concat (map toUpperCase_unit s)"

definition toLowerCase :: "jsstring \<Rightarrow> jsstring" where
  "toLowerCase s = concat (map toLowerCase_unit s)"

fun indexOf :: "'a list \<Rightarrow> 'a \<Rightarrow> int" where
  \<comment> \<open>\<^verbatim>\<open>Array.prototype.indexOf\<close>: the first position of the element, or -1.\<close>
  "indexOf [] c = - 1"
| "indexOf (x # xs) c =
     (if x = c then 0
      else (let k = indexOf xs c in if k = - 1 then - 1 else k + 1))"

section \<open>The graphics device\<close>

text \<open>
  The device is known to the board only through the calls it issues. It is modelled as
  the trace of those calls, newest last. A typed array handed to the device is
  represented by the array it was built from.
\<close>

datatype gl_buffer = Buffer nat

datatype gl_target = ARRAY_BUFFER | ELEMENT_ARRAY_BUFFER

datatype gl_usage = STATIC_DRAW | DYNAMIC_DRAW

datatype gl_data = Float32Array "jsval list" | Uint16Array "nat list"

datatype gl_call =
    CreateBuffer
  | BindBuffer gl_target gl_buffer
  | BufferData gl_target gl_data gl_usage
  | BufferSubData gl_target nat gl_data
  | DrawElements nat

type_synonym gl = "gl_call list"

definition createBuffer :: "gl \<Rightarrow> gl_buffer \<times> gl" where
  \<comment> \<open>Every call returns a handle that was not returned before.\<close>
  "createBuffer g = (Buffer (length (filter (\<lambda>c. c = CreateBuffer) g)), g @ [CreateBuffer])"

section \<open>The board\<close>

record options =
  opt_texture :: nat
  opt_chars :: jsstring
  opt_rows :: nat
  opt_cols :: nat
  opt_speed :: "real option"

record board =
  texture :: nat
  chars :: jsstring
  rows :: nat
  cols :: nat
  speed :: real
  timing :: real
  verticesPerChar :: nat
  vertexBuffer :: gl_buffer
  indexBuffer :: gl_buffer
  charBufferObject :: gl_buffer
  charBuffer :: "jsval list"
  charBufferDirty :: bool
  numIndices :: nat

subsection \<open>Geometry\<close>

definition extendArray :: "'a list \<Rightarrow> 'a list \<Rightarrow> 'a list" where
  "extendArray a1 a2 = a1 @ a2"

definition addFaceIndices :: "nat list \<Rightarrow> nat \<Rightarrow> nat \<Rightarrow> nat \<Rightarrow> nat \<Rightarrow> nat list" where
  "addFaceIndices arr a b c d = arr @ [c, d, a, c, a, b]"

definition charWidth :: real where "charWidth = 1"

definition charHeight :: real where "charHeight = 1"

definition spacing :: real where "spacing = 1 / 10"

text \<open>
  \<^verbatim>\<open>setupCharHalf\<close> appends the four vertices of one flap, five numbers each, to the
  vertex list and the six indices of its two triangles to the index list. The pair
  carried through is (index list, vertex list).
\<close>

definition setupCharHalf ::
  "real \<Rightarrow> real \<Rightarrow> real \<Rightarrow> real \<Rightarrow> nat \<Rightarrow> bool \<Rightarrow> bool \<Rightarrow> nat list \<times> real list
     \<Rightarrow> nat list \<times> real list" where
  "setupCharHalf x y u v i animated flipped bufs =
     (let (ib, vb) = bufs;
          anim = (if animated then 1 else 0);
          z = 0;
          topUV = (if flipped then - (1 / 2) else 1 / 2);
          vb = extendArray vb [x, y, z];
          vb = extendArray vb [u, v];
          vb = extendArray vb [x + charWidth, y, z];
          vb = extendArray vb [u + 1, v];
          vb = extendArray vb [x + charWidth, y + charHeight, z + anim];
          vb = extendArray vb [u + 1, v + topUV];
          vb = extendArray vb [x, y + charHeight, z + anim];
          vb = extendArray vb [u, v + topUV];
          ib = (if flipped then addFaceIndices ib (i + 3) (i + 2) (i + 1) (i + 0)
                else addFaceIndices ib (i + 0) (i + 1) (i + 2) (i + 3))
      in (ib, vb))"

text \<open>
  The state of the two geometry loops: the lists built so far, the running vertex
  \<^verbatim>\<open>index\<close> and the pen position \<^verbatim>\<open>x\<close>, \<^verbatim>\<open>y\<close>. The variable \<^verbatim>\<open>x\<close> is
  unassigned until the first row assigns it; the state starts it at 0, which is never
  read.
\<close>

record geom =
  g_bufs :: "nat list \<times> real list"
  g_index :: nat
  g_x :: real
  g_y :: real

definition buildCell :: "board \<Rightarrow> geom \<Rightarrow> geom" where
  \<comment> \<open>The body of the loop over the columns.\<close>
  "buildCell self g =
     (let x = g_x g; y = g_y g; index = g_index g;
          bufs = setupCharHalf x (y - 1) 0 0 index False False (g_bufs g);
          bufs = setupCharHalf x y 1 (1 / 2) (index + 4) False False bufs;
          bufs = setupCharHalf x y 0 (1 / 2) (index + 8) True False bufs;
          bufs = setupCharHalf x y 1 (1 / 2) (index + 12) True True bufs
      in g\<lparr>g_bufs := bufs, g_index := index + verticesPerChar self,
            g_x := x + (spacing + charWidth)\<rparr>)"

definition buildRow :: "board \<Rightarrow> real \<Rightarrow> geom \<Rightarrow> geom" where
  \<comment> \<open>The body of the loop over the rows.\<close>
  "buildRow self offsetX g =
     (let g = g\<lparr>g_x := offsetX\<rparr>;
          g = fold (\<lambda>i. buildCell self) [0..<cols self] g
      in g\<lparr>g_y := g_y g - (spacing + 2 * charHeight)\<rparr>)"

definition buildBuffers ::
  "board \<Rightarrow> nat list \<Rightarrow> real list \<Rightarrow> board \<times> nat list \<times> real list" where
  "buildBuffers self indexBuf vertexBuf =
     (let self = self\<lparr>charBuffer :=
                   replicate (2 * verticesPerChar self * cols self * rows self)
                     (Number (real_of_int (int (length (chars self)) - 1))),
                 charBufferDirty := False\<rparr>;
          offsetX = (- real (cols self) / 2) * (charWidth + spacing);
          y = (real (rows self) / 2 - 1 / 2) * (2 * charHeight + spacing);
          g = fold (\<lambda>j. buildRow self offsetX) [0..<rows self]
                \<lparr>g_bufs = (indexBuf, vertexBuf), g_index = 0, g_x = 0, g_y = y\<rparr>
      in (self, g_bufs g))"

definition SolariBoard :: "gl \<Rightarrow> options \<Rightarrow> board \<times> gl" where
  "SolariBoard g opts =
     (let (vbo, g) = createBuffer g;
          (ibo, g) = createBuffer g;
          (cbo, g) = createBuffer g;
          self = \<lparr>texture = opt_texture opts,
                  chars = opt_chars opts,
                  rows = opt_rows opts,
                  cols = opt_cols opts,
                  speed = (case opt_speed opts of
                             None \<Rightarrow> 5 / 1000
                           | Some s \<Rightarrow> if s = 0 then 5 / 1000 else s),
                  timing = 0,
                  verticesPerChar = 16,
                  vertexBuffer = vbo,
                  indexBuffer = ibo,
                  charBufferObject = cbo,
                  charBuffer = [],
                  charBufferDirty = False,
                  numIndices = 0\<rparr>;
          (self, indexBuf, vertexBuf) = buildBuffers self [] [];
          self = self\<lparr>numIndices := length indexBuf\<rparr>;
          g = g @ [BindBuffer ARRAY_BUFFER (charBufferObject self),
                   BufferData ARRAY_BUFFER (Float32Array (charBuffer self)) DYNAMIC_DRAW,
                   BindBuffer ARRAY_BUFFER (vertexBuffer self),
                   BufferData ARRAY_BUFFER (Float32Array (map Number vertexBuf)) STATIC_DRAW,
                   BindBuffer ELEMENT_ARRAY_BUFFER (indexBuffer self),
                   BufferData ELEMENT_ARRAY_BUFFER (Uint16Array indexBuf) STATIC_DRAW]
      in (self, g))"

subsection \<open>Messages\<close>

definition wrapFrom :: "nat \<Rightarrow> real \<Rightarrow> jsval \<Rightarrow> jsval" where
  \<comment> \<open>\<^verbatim>\<open>(Math.floor(to) < Math.floor(from)) ? from - self.chars.length : from\<close>.
      \<^verbatim>\<open>Math.floor(undefined)\<close> is NaN and every comparison with NaN is false, so an
      undefined \<^verbatim>\<open>from\<close> is stored as it is.\<close>
  "wrapFrom n to from =
     (case from of
        Undefined \<Rightarrow> Undefined
      | Number f \<Rightarrow> if \<lfloor>to\<rfloor> < \<lfloor>f\<rfloor> then Number (f - real n) else Number f)"

definition fillVertex :: "board \<Rightarrow> real \<Rightarrow> nat \<Rightarrow> nat \<Rightarrow> jsval list \<Rightarrow> jsval list" where
  \<comment> \<open>The body of the loop of \<^verbatim>\<open>fillCharBuffer\<close>.\<close>
  "fillVertex self to bufIndex i buffer =
     (let from = js_get buffer (bufIndex + 2 * i + 1);
          buffer = js_set buffer (bufIndex + 2 * i) (wrapFrom (length (chars self)) to from)
      in js_set buffer (bufIndex + 2 * i + 1) (Number to))"

definition fillCharBuffer :: "board \<Rightarrow> real \<Rightarrow> jsval list \<times> nat \<Rightarrow> jsval list \<times> nat" where
  \<comment> \<open>The closure's variables \<^verbatim>\<open>buffer\<close> and \<^verbatim>\<open>bufIndex\<close> are the state.\<close>
  "fillCharBuffer self to st =
     (let (buffer, bufIndex) = st
      in (fold (fillVertex self to bufIndex) [0..<verticesPerChar self] buffer,
          bufIndex + 2 * verticesPerChar self))"

definition glyphIndex :: "jsstring \<Rightarrow> jsstring \<Rightarrow> nat \<Rightarrow> int" where
  \<comment> \<open>The value of \<^verbatim>\<open>char\<close> for column \<open>i\<close> of the upper-cased row text.\<close>
  "glyphIndex cs msgRow i =
     (let char = int (length cs) - 1
      in if i < length msgRow
         then (let k = indexOf cs (msgRow ! i) in if k \<noteq> - 1 then k else char)
         else char)"

definition rowText :: "jsstring list \<Rightarrow> nat \<Rightarrow> jsstring" where
  \<comment> \<open>\<^verbatim>\<open>(msg[j] || "").toUpperCase()\<close>: a missing or empty line counts as empty.\<close>
  "rowText msg j =
     toUpperCase (if j < length msg \<and> msg ! j \<noteq> [] then msg ! j else [])"

text \<open>
  \<^verbatim>\<open>Math.random()\<close> is an input of the model: \<open>rnd k\<close> is the value of the call made
  for cell number \<open>k\<close> (row-major) of one \<^verbatim>\<open>setMessage\<close>.
\<close>

definition setMessage :: "board \<Rightarrow> jsstring list \<Rightarrow> (nat \<Rightarrow> real) \<Rightarrow> board" where
  "setMessage self msg rnd =
     (let st = fold (\<lambda>j st.
                 let msgRow = rowText msg j
                 in fold (\<lambda>i st.
                      let char = glyphIndex (chars self) msgRow i
                      in fillCharBuffer self
                           (real_of_int char + rnd (j * cols self + i) * (1 / 10)) st)
                    [0..<cols self] st)
               [0..<rows self] (charBuffer self, 0)
      in self\<lparr>charBuffer := fst st, charBufferDirty := True\<rparr>)"

subsection \<open>Frames\<close>

definition update :: "board \<Rightarrow> real \<Rightarrow> gl \<Rightarrow> board \<times> gl" where
  "update self time g =
     (let self = (if timing self < real (length (chars self))
                  then self\<lparr>timing := timing self + time * speed self\<rparr> else self)
      in if charBufferDirty self
         then (self\<lparr>charBufferDirty := False\<rparr>,
               g @ [BindBuffer ARRAY_BUFFER (charBufferObject self),
                    BufferSubData ARRAY_BUFFER 0 (Float32Array (charBuffer self))])
         else (self, g))"

definition draw :: "board \<Rightarrow> gl \<Rightarrow> gl" where
  "draw self g = g @ [DrawElements (numIndices self)]"

section \<open>Vocabulary of the properties\<close>

text \<open>
  The character buffer holds, for cell \<open>c\<close> (row-major) and vertex \<open>v\<close> of that cell, the
  pair (from, to) at positions \<open>2 * verticesPerChar * c + 2 * v\<close> and the next one: the
  positions \<^verbatim>\<open>bufIndex + 2*i\<close> and \<^verbatim>\<open>bufIndex + 2*i+1\<close> of \<^verbatim>\<open>fillCharBuffer\<close>.
\<close>

definition slotFrom :: "board \<Rightarrow> nat \<Rightarrow> nat \<Rightarrow> jsval" where
  "slotFrom b c v = js_get (charBuffer b) (2 * verticesPerChar b * c + 2 * v)"

definition slotTo :: "board \<Rightarrow> nat \<Rightarrow> nat \<Rightarrow> jsval" where
  "slotTo b c v = js_get (charBuffer b) (2 * verticesPerChar b * c + 2 * v + 1)"

definition glyphOf :: "jsval \<Rightarrow> int option" where
  \<comment> \<open>The glyph a slot shows: the floor of its number.\<close>
  "glyphOf x = (case x of Number r \<Rightarrow> Some \<lfloor>r\<rfloor> | Undefined \<Rightarrow> None)"

definition wellFormed :: "board \<Rightarrow> bool" where
  \<comment> \<open>What the constructor establishes and \<^verbatim>\<open>setMessage\<close> and \<^verbatim>\<open>update\<close> keep.\<close>
  "wellFormed b \<longleftrightarrow>
     verticesPerChar b = 16 \<and>
     length (charBuffer b) = 2 * verticesPerChar b * cols b * rows b"

definition cellTo :: "board \<Rightarrow> jsstring list \<Rightarrow> (nat \<Rightarrow> real) \<Rightarrow> nat \<Rightarrow> real" where
  \<comment> \<open>The argument \<^verbatim>\<open>char + Math.random() * 0.1\<close> of \<^verbatim>\<open>fillCharBuffer\<close> for cell \<open>c\<close>.\<close>
  "cellTo b msg rnd c =
     real_of_int (glyphIndex (chars b) (rowText msg (c div cols b)) (c mod cols b))
       + rnd c * (1 / 10)"

definition setMessages :: "board \<Rightarrow> (jsstring list \<times> (nat \<Rightarrow> real)) list \<Rightarrow> board" where
  \<comment> \<open>A sequence of \<^verbatim>\<open>setMessage\<close> calls, each with its random values.\<close>
  "setMessages b calls = fold (\<lambda>(msg, rnd) b. setMessage b msg rnd) calls b"

definition updates :: "board \<Rightarrow> real list \<Rightarrow> gl \<Rightarrow> board \<times> gl" where
  \<comment> \<open>A sequence of \<^verbatim>\<open>update\<close> calls with the given elapsed times.\<close>
  "updates b ts g = fold (\<lambda>t (b, g). update b t g) ts (b, g)"

definition asciiLine :: "jsstring \<Rightarrow> bool" where
  \<comment> \<open>Every code unit of the line is an ASCII character.\<close>
  "asciiLine l = list_all (\<lambda>c. c < 128) l"


definition midRandom :: "nat \<Rightarrow> real" where
  \<comment> \<open>Every call of \<^verbatim>\<open>Math.random()\<close> returns 0.5.\<close>
  "midRandom k = 1 / 2"

definition zeroRandom :: "nat \<Rightarrow> real" where
  \<comment> \<open>Every call of \<^verbatim>\<open>Math.random()\<close> returns 0.\<close>
  "zeroRandom k = 0"

definition demoOptions :: options where
  \<comment> \<open>A board of one row and three columns over the glyphs A, B, C and the blank.\<close>
  "demoOptions =
     \<lparr>opt_texture = 0, opt_chars = str ''ABC '', opt_rows = 1, opt_cols = 3,
      opt_speed = None\<rparr>"

definition demoBoard :: board where
  "demoBoard = fst (SolariBoard [] demoOptions)"

definition kelvinBoard :: board where
  \<comment> \<open>A board of one cell over the glyphs K and the blank.\<close>
  "kelvinBoard =
     fst (SolariBoard []
       \<lparr>opt_texture = 0, opt_chars = str ''K '', opt_rows = 1, opt_cols = 1,
        opt_speed = None\<rparr>)"

definition sharpBoard :: board where
  \<comment> \<open>A board of one row and three columns over the glyphs S and the blank.\<close>
  "sharpBoard =
     fst (SolariBoard []
       \<lparr>opt_texture = 0, opt_chars = str ''S '', opt_rows = 1, opt_cols = 3,
        opt_speed = None\<rparr>)"

definition abcBoard :: board where
  \<comment> \<open>The board of \<open>demoBoard\<close> showing A, B, C.\<close>
  "abcBoard = setMessage demoBoard [str ''ABC''] zeroRandom"

section \<open>The constructed board\<close>

lemma fold_upt_const: "fold (\<lambda>i. f) [0..<n] s = (f ^^ n) s"
  by (induction n) simp_all

lemma buildBuffers_board:
  "fst (buildBuffers self ib vb) =
     self\<lparr>charBuffer :=
            replicate (2 * verticesPerChar self * cols self * rows self)
              (Number (real_of_int (int (length (chars self)) - 1))),
          charBufferDirty := False\<rparr>"
  by (simp add: buildBuffers_def Let_def)

lemma SolariBoard_fields:
  "chars (fst (SolariBoard g opts)) = opt_chars opts"
  "rows (fst (SolariBoard g opts)) = opt_rows opts"
  "cols (fst (SolariBoard g opts)) = opt_cols opts"
  "timing (fst (SolariBoard g opts)) = 0"
  "verticesPerChar (fst (SolariBoard g opts)) = 16"
  "charBufferDirty (fst (SolariBoard g opts)) = False"
  "speed (fst (SolariBoard g opts)) =
     (case opt_speed opts of None \<Rightarrow> 5 / 1000 | Some s \<Rightarrow> if s = 0 then 5 / 1000 else s)"
  "charBuffer (fst (SolariBoard g opts)) =
     replicate (2 * 16 * opt_cols opts * opt_rows opts)
       (Number (real_of_int (int (length (opt_chars opts)) - 1)))"
  by (simp_all add: SolariBoard_def Let_def split_beta buildBuffers_board)

lemma SolariBoard_wellFormed: "wellFormed (fst (SolariBoard g opts))"
  by (simp add: wellFormed_def SolariBoard_fields)

lemma demoBoard_fields:
  "chars demoBoard = [65, 66, 67, 32]"
  "rows demoBoard = 1"
  "cols demoBoard = 3"
  "timing demoBoard = 0"
  "speed demoBoard = 5 / 1000"
  "verticesPerChar demoBoard = 16"
  "charBufferDirty demoBoard = False"
  "charBuffer demoBoard = replicate 96 (Number 3)"
  by (simp_all add: demoBoard_def demoOptions_def SolariBoard_fields str_def)

lemma demoBoard_wellFormed: "wellFormed demoBoard"
  by (simp add: demoBoard_def SolariBoard_wellFormed)

section \<open>Geometry: vertex and index counts\<close>

lemma buildCell_fields:
  "length (fst (g_bufs (buildCell self g))) = length (fst (g_bufs g)) + 24"
  "length (snd (g_bufs (buildCell self g))) = length (snd (g_bufs g)) + 80"
  "g_index (buildCell self g) = g_index g + verticesPerChar self"
  by (cases "g_bufs g";
      simp add: buildCell_def Let_def setupCharHalf_def extendArray_def addFaceIndices_def)+


lemma buildCells_fields:
  "length (fst (g_bufs ((buildCell self ^^ n) g))) = length (fst (g_bufs g)) + 24 * n"
  "length (snd (g_bufs ((buildCell self ^^ n) g))) = length (snd (g_bufs g)) + 80 * n"
  "g_index ((buildCell self ^^ n) g) = g_index g + verticesPerChar self * n"
  by (induction n) (simp_all add: buildCell_fields)


lemma buildRow_fields:
  "length (fst (g_bufs (buildRow self ox g))) = length (fst (g_bufs g)) + 24 * cols self"
  "length (snd (g_bufs (buildRow self ox g))) = length (snd (g_bufs g)) + 80 * cols self"
  "g_index (buildRow self ox g) = g_index g + verticesPerChar self * cols self"
  by (simp_all add: buildRow_def Let_def fold_upt_const buildCells_fields)


lemma buildRows_fields:
  "length (fst (g_bufs ((buildRow self ox ^^ n) g))) =
     length (fst (g_bufs g)) + 24 * cols self * n"
  "length (snd (g_bufs ((buildRow self ox ^^ n) g))) =
     length (snd (g_bufs g)) + 80 * cols self * n"
  "g_index ((buildRow self ox ^^ n) g) = g_index g + verticesPerChar self * cols self * n"
  by (induction n) (simp_all add: buildRow_fields algebra_simps)


lemma buildBuffers_bufs:
  "snd (buildBuffers self ib vb) =
     g_bufs ((buildRow (fst (buildBuffers self ib vb))
               ((- real (cols self) / 2) * (charWidth + spacing)) ^^ rows self)
        \<lparr>g_bufs = (ib, vb), g_index = 0, g_x = 0,
         g_y = (real (rows self) / 2 - 1 / 2) * (2 * charHeight + spacing)\<rparr>)"
  by (simp add: buildBuffers_def Let_def fold_upt_const)

text \<open>
  Claim C5. For a grid of \<open>rows \<times> cols\<close> cells the geometry builder, started on empty
  lists as the constructor starts it, produces \<open>16 * rows * cols\<close> vertices, each of
  five numbers (position and texture coordinate) in the flat vertex list, and
  \<open>24 * rows * cols\<close> index entries.
\<close>

theorem buildBuffers_counts:
  "length (snd (snd (buildBuffers self [] []))) = 5 * (16 * rows self * cols self) \<and>
   length (fst (snd (buildBuffers self [] []))) = 24 * rows self * cols self"
  by (simp add: buildBuffers_bufs buildRows_fields buildBuffers_board)




section \<open>Frames: uploads\<close>

text \<open>
  Claim C6. Of two \<^verbatim>\<open>update\<close> calls in a row, the second issues no device call: the
  trace is the one the first call left. The first call leaves the dirty flag clear; it
  binds and uploads the character buffer when the flag was set, and issues no call
  when it was clear.
\<close>

theorem update_twice_uploads_once:
  "snd (update (fst (update b t1 g)) t2 (snd (update b t1 g))) = snd (update b t1 g) \<and>
   charBufferDirty (fst (update b t1 g)) = False \<and>
   snd (update b t1 g) =
     (if charBufferDirty b
      then g @ [BindBuffer ARRAY_BUFFER (charBufferObject b),
                BufferSubData ARRAY_BUFFER 0 (Float32Array (charBuffer b))]
      else g)"
  by (simp add: update_def Let_def)

section \<open>Frames: the timing value\<close>

lemma update_board:
  "timing (fst (update b t g)) =
     (if timing b < real (length (chars b)) then timing b + t * speed b else timing b)"
  "chars (fst (update b t g)) = chars b"
  "speed (fst (update b t g)) = speed b"
  "charBuffer (fst (update b t g)) = charBuffer b"
  by (simp_all add: update_def Let_def)

lemma update_wellFormed: "wellFormed b \<Longrightarrow> wellFormed (fst (update b t g))"
  by (simp add: wellFormed_def update_def Let_def)

lemma updates_snoc:
  "updates b (ts @ [t]) g = update (fst (updates b ts g)) t (snd (updates b ts g))"
  by (simp add: updates_def split_beta)

lemma updates_keep:
  "chars (fst (updates b ts g)) = chars b \<and> speed (fst (updates b ts g)) = speed b"
proof (induction ts rule: rev_induct)
  case Nil
  show ?case by (simp add: updates_def)
next
  case (snoc t ts)
  then show ?case by (simp add: updates_snoc update_board)
qed

lemma updates_timing_bounds:
  assumes sp: "0 \<le> speed b" and m: "0 \<le> m"
      and ts: "\<forall>t\<in>set ts. 0 \<le> t \<and> t \<le> m"
      and st: "timing b \<le> real (length (chars b))"
  shows "timing (fst (updates b ts g)) \<le> real (length (chars b)) + m * speed b"
  using ts
proof (induction ts rule: rev_induct)
  case Nil
  have "0 \<le> m * speed b" using sp m by simp
  then show ?case using st by (simp add: updates_def)
next
  case (snoc t ts)
  let ?b = "fst (updates b ts g)"
  have ih: "timing ?b \<le> real (length (chars b)) + m * speed b"
    using snoc by simp
  have "t * speed b \<le> m * speed b"
    using snoc.prems sp by (simp add: mult_right_mono)
  then show ?case
    using ih by (simp add: updates_snoc update_board updates_keep)
qed

lemma update_timing_step:
  assumes "0 \<le> speed b" and "0 \<le> t"
  shows "timing b \<le> timing (fst (update b t g))"
  using assms by (simp add: update_board)

lemma demo_updates:
  "timing (fst (updates demoBoard [1000] [])) = 5"
  "timing (fst (updates demoBoard [1000, 1000] [])) = 5"
  by (simp_all add: updates_def update_def Let_def demoBoard_fields)

text \<open>
  Claim C1, as amended. On a board with non-negative speed whose timing value starts at
  or below the number of glyphs (the constructor starts it at 0), along every sequence
  of \<^verbatim>\<open>update\<close> calls with elapsed times between 0 and \<open>m\<close>: each call leaves the timing
  value where it was or moves it up; a call made once the value has reached the number
  of glyphs leaves it unchanged; and the value stays at or below the number of glyphs
  plus \<open>m * speed\<close>, the most the last advancing call can add. The value is not capped
  at the number of glyphs itself: the counterexample below passes it in one call, and
  shows a negative speed moving the value down.
\<close>

theorem update_timing_monotone_bounded:
  assumes "0 \<le> speed b" and "0 \<le> m"
      and "\<forall>t\<in>set (ts @ [t']). 0 \<le> t \<and> t \<le> m"
      and "timing b \<le> real (length (chars b))"
  shows "timing (fst (updates b ts g)) \<le> timing (fst (updates b (ts @ [t']) g)) \<and>
         timing (fst (updates b (ts @ [t']) g)) \<le> real (length (chars b)) + m * speed b \<and>
         (real (length (chars b)) \<le> timing (fst (updates b ts g)) \<longrightarrow>
            timing (fst (updates b (ts @ [t']) g)) = timing (fst (updates b ts g)))"
proof (intro conjI impI)
  have "0 \<le> speed (fst (updates b ts g))" using assms(1) by (simp add: updates_keep)
  moreover have "0 \<le> t'" using assms(3) by simp
  ultimately show "timing (fst (updates b ts g)) \<le> timing (fst (updates b (ts @ [t']) g))"
    unfolding updates_snoc by (rule update_timing_step)
next
  show "timing (fst (updates b (ts @ [t']) g)) \<le> real (length (chars b)) + m * speed b"
    by (rule updates_timing_bounds [OF assms])
next
  assume "real (length (chars b)) \<le> timing (fst (updates b ts g))"
  then show "timing (fst (updates b (ts @ [t']) g)) = timing (fst (updates b ts g))"
    by (simp add: updates_snoc update_board updates_keep)
qed

theorem update_timing_monotone_bounded_witness:
  "0 \<le> speed demoBoard \<and> timing demoBoard \<le> real (length (chars demoBoard)) \<and>
   timing (fst (updates demoBoard [1000] [])) = 5 \<and>
   timing (fst (updates demoBoard ([1000] @ [1000]) [])) = 5 \<and>
   (5::real) \<le> real (length (chars demoBoard)) + 1000 * speed demoBoard"
  using update_timing_monotone_bounded [of demoBoard 1000 "[1000]" 1000 "[]"]
  by (simp add: demo_updates demoBoard_fields)

theorem update_timing_capped_counterexample:
  "(0::real) \<le> 1000 \<and>
   \<not> timing (fst (update demoBoard 1000 [])) \<le> real (length (chars demoBoard)) \<and>
   (0::real) \<le> 1 \<and>
   \<not> timing (fst (SolariBoard [] (demoOptions\<lparr>opt_speed := Some (- 1)\<rparr>)))
       \<le> timing (fst (update (fst (SolariBoard [] (demoOptions\<lparr>opt_speed := Some (- 1)\<rparr>)))
             1 []))"
  by (simp add: update_board demoBoard_fields SolariBoard_fields demoOptions_def str_def)


section \<open>Messages: the effect on the character buffer\<close>

lemma fillVertex_in_range:
  assumes "bi + 2 * i + 1 < length buf"
  shows "fillVertex self to bi i buf =
     buf[bi + 2 * i := wrapFrom (length (chars self)) to (buf ! (bi + 2 * i + 1)),
         bi + 2 * i + 1 := Number to]"
  using assms by (simp add: fillVertex_def js_get_def js_set_def Let_def)

lemma fill_loop:
  assumes "bi + 2 * n \<le> length buf"
  shows "length (fold (fillVertex self to bi) [0..<n] buf) = length buf \<and>
     (\<forall>k<length buf. fold (fillVertex self to bi) [0..<n] buf ! k =
        (if bi \<le> k \<and> k < bi + 2 * n
         then (if even (k - bi) then wrapFrom (length (chars self)) to (buf ! (k + 1))
               else Number to)
         else buf ! k))"
  using assms
proof (induction n)
  case 0
  show ?case by auto
next
  case (Suc n)
  let ?b = "fold (fillVertex self to bi) [0..<n] buf"
  have ih: "length ?b = length buf"
    "\<And>k. k < length buf \<Longrightarrow> ?b ! k =
        (if bi \<le> k \<and> k < bi + 2 * n
         then (if even (k - bi) then wrapFrom (length (chars self)) to (buf ! (k + 1))
               else Number to)
         else buf ! k)"
    using Suc by simp_all
  have r: "bi + 2 * n + 1 < length ?b" using Suc.prems ih(1) by simp
  have step: "fold (fillVertex self to bi) [0..<Suc n] buf =
      ?b[bi + 2 * n := wrapFrom (length (chars self)) to (?b ! (bi + 2 * n + 1)),
         bi + 2 * n + 1 := Number to]"
    by (simp add: fillVertex_in_range [OF r])
  have nxt: "?b ! (bi + 2 * n + 1) = buf ! (bi + 2 * n + 1)"
    using ih(2) [of "bi + 2 * n + 1"] r ih(1) by simp
  show ?case
  proof (intro conjI allI impI)
    show "length (fold (fillVertex self to bi) [0..<Suc n] buf) = length buf"
      unfolding step by (simp add: ih(1))
  next
    fix k assume k: "k < length buf"
    consider "k = bi + 2 * n" | "k = bi + 2 * n + 1" | "k \<noteq> bi + 2 * n" "k \<noteq> bi + 2 * n + 1"
      by blast
    then show "fold (fillVertex self to bi) [0..<Suc n] buf ! k =
        (if bi \<le> k \<and> k < bi + 2 * Suc n
         then (if even (k - bi) then wrapFrom (length (chars self)) to (buf ! (k + 1))
               else Number to)
         else buf ! k)"
    proof cases
      case 1
      then show ?thesis unfolding step using r ih(1) nxt by simp
    next
      case 2
      then show ?thesis unfolding step using r ih(1) by simp
    next
      case 3
      have "(k < bi + 2 * Suc n) = (k < bi + 2 * n)" using 3 by arith
      then show ?thesis unfolding step using 3 k ih(2) [OF k] by simp
    qed
  qed
qed


lemma fold_rows_cols:
  "fold (\<lambda>j. fold (\<lambda>i. f j i) [0..<m]) [0..<n] s =
   fold (\<lambda>c. f (c div m) (c mod m)) [0..<n * m] s"
proof (induction n arbitrary: s)
  case 0
  show ?case by simp
next
  case (Suc n)
  have a: "[0..<Suc n * m] = [0..<n * m] @ [n * m..<n * m + m]"
    using upt_add_eq_append [of 0 "n * m" m] by (simp add: add.commute)
  have b: "[n * m..<n * m + m] = map (\<lambda>i. i + n * m) [0..<m]"
    using map_add_upt [of "n * m" m] by (simp add: add.commute)
  have inner: "fold (\<lambda>c. f (c div m) (c mod m)) (map (\<lambda>i. i + n * m) [0..<m]) t =
      fold (\<lambda>i. f n i) [0..<m] t" for t
    unfolding fold_map by (rule fold_cong) (auto simp: comp_def)
  have "fold (\<lambda>c. f (c div m) (c mod m)) [0..<Suc n * m] s =
     fold (\<lambda>i. f n i) [0..<m] (fold (\<lambda>c. f (c div m) (c mod m)) [0..<n * m] s)"
    unfolding a b fold_append by (simp only: comp_def inner)
  also have "\<dots> = fold (\<lambda>i. f n i) [0..<m] (fold (\<lambda>j. fold (\<lambda>i. f j i) [0..<m]) [0..<n] s)"
    by (simp only: Suc)
  also have "\<dots> = fold (\<lambda>j. fold (\<lambda>i. f j i) [0..<m]) [0..<Suc n] s"
    by simp
  finally show ?case by simp
qed

lemma cells_loop:
  assumes vpc: "verticesPerChar self = 16" and len: "32 * n \<le> length buf"
  shows "snd (fold (\<lambda>c. fillCharBuffer self (tv c)) [0..<n] (buf, 0)) = 32 * n \<and>
     length (fst (fold (\<lambda>c. fillCharBuffer self (tv c)) [0..<n] (buf, 0))) = length buf \<and>
     (\<forall>k<length buf. fst (fold (\<lambda>c. fillCharBuffer self (tv c)) [0..<n] (buf, 0)) ! k =
        (if k < 32 * n
         then (if even k then wrapFrom (length (chars self)) (tv (k div 32)) (buf ! (k + 1))
               else Number (tv (k div 32)))
         else buf ! k))"
  using len
proof (induction n)
  case 0
  show ?case by simp
next
  case (Suc n)
  let ?st = "fold (\<lambda>c. fillCharBuffer self (tv c)) [0..<n] (buf, 0)"
  let ?b = "fst ?st"
  have ih: "snd ?st = 32 * n" "length ?b = length buf"
    "\<And>k. k < length buf \<Longrightarrow> ?b ! k =
        (if k < 32 * n
         then (if even k then wrapFrom (length (chars self)) (tv (k div 32)) (buf ! (k + 1))
               else Number (tv (k div 32)))
         else buf ! k)"
    using Suc by simp_all
  let ?b' = "fold (fillVertex self (tv n) (32 * n)) [0..<16] ?b"
  have rng: "32 * n + 2 * 16 \<le> length ?b" using Suc.prems ih(2) by simp
  note fl = fill_loop [OF rng, of self "tv n"]
  have step: "fold (\<lambda>c. fillCharBuffer self (tv c)) [0..<Suc n] (buf, 0) = (?b', 32 * n + 32)"
    using ih(1) by (simp add: fillCharBuffer_def vpc split_beta)
  show ?case
  proof (intro conjI allI impI)
    show "snd (fold (\<lambda>c. fillCharBuffer self (tv c)) [0..<Suc n] (buf, 0)) = 32 * Suc n"
      unfolding step by simp
  next
    show "length (fst (fold (\<lambda>c. fillCharBuffer self (tv c)) [0..<Suc n] (buf, 0))) = length buf"
      unfolding step using fl ih(2) by simp
  next
    fix k assume k: "k < length buf"
    then have kb: "k < length ?b" using ih(2) by simp
    have val: "?b' ! k =
        (if 32 * n \<le> k \<and> k < 32 * n + 2 * 16
         then (if even (k - 32 * n) then wrapFrom (length (chars self)) (tv n) (?b ! (k + 1))
               else Number (tv n))
         else ?b ! k)"
      using conjunct2 [OF fl, rule_format, OF kb] .
    show "fst (fold (\<lambda>c. fillCharBuffer self (tv c)) [0..<Suc n] (buf, 0)) ! k =
        (if k < 32 * Suc n
         then (if even k then wrapFrom (length (chars self)) (tv (k div 32)) (buf ! (k + 1))
               else Number (tv (k div 32)))
         else buf ! k)"
    proof (cases "32 * n \<le> k \<and> k < 32 * n + 32")
      case True
      then have d: "k div 32 = n" by (intro div_nat_eqI) simp_all
      have e: "even (k - 32 * n) = even k" using True by simp
      have nx: "even k \<Longrightarrow> ?b ! (k + 1) = buf ! (k + 1)"
      proof -
        assume "even k"
        then have "k + 1 < 32 * n + 32" using True by (elim evenE) arith
        then have "k + 1 < length buf" using Suc.prems by simp
        from ih(3) [OF this] True show ?thesis by simp
      qed
      show ?thesis unfolding step using True d e nx val by simp
    next
      case False
      then have "(k < 32 * Suc n) = (k < 32 * n)" by auto
      then show ?thesis unfolding step using False val ih(3) [OF k] by simp
    qed
  qed
qed


lemma setMessage_state:
  "setMessage self msg rnd =
     self\<lparr>charBuffer :=
            fst (fold (\<lambda>c. fillCharBuffer self (cellTo self msg rnd c))
                   [0..<rows self * cols self] (charBuffer self, 0)),
          charBufferDirty := True\<rparr>"
proof -
  have "fold (\<lambda>j. fold (\<lambda>i. fillCharBuffer self
            (real_of_int (glyphIndex (chars self) (rowText msg j) i)
               + rnd (j * cols self + i) * (1 / 10))) [0..<cols self]) [0..<rows self] st =
        fold (\<lambda>c. fillCharBuffer self (cellTo self msg rnd c)) [0..<rows self * cols self] st"
    for st
    unfolding fold_rows_cols by (simp add: cellTo_def)
  then show ?thesis by (simp add: setMessage_def Let_def)
qed

lemma setMessage_fields:
  "chars (setMessage b msg rnd) = chars b"
  "rows (setMessage b msg rnd) = rows b"
  "cols (setMessage b msg rnd) = cols b"
  "verticesPerChar (setMessage b msg rnd) = verticesPerChar b"
  "timing (setMessage b msg rnd) = timing b"
  "speed (setMessage b msg rnd) = speed b"
  "charBufferDirty (setMessage b msg rnd) = True"
  by (simp_all add: setMessage_def Let_def)

lemma setMessage_buffer:
  assumes wf: "wellFormed b"
  shows "length (charBuffer (setMessage b msg rnd)) = length (charBuffer b)"
    and "k < length (charBuffer b) \<Longrightarrow>
         charBuffer (setMessage b msg rnd) ! k =
           (if even k
            then wrapFrom (length (chars b)) (cellTo b msg rnd (k div 32)) (charBuffer b ! (k + 1))
            else Number (cellTo b msg rnd (k div 32)))"
proof -
  have vpc: "verticesPerChar b = 16" using wf by (simp add: wellFormed_def)
  have len: "32 * (rows b * cols b) \<le> length (charBuffer b)"
    using wf by (simp add: wellFormed_def)
  note cl = cells_loop [OF vpc len, of "cellTo b msg rnd"]
  show "length (charBuffer (setMessage b msg rnd)) = length (charBuffer b)"
    using cl by (simp add: setMessage_state)
  assume k: "k < length (charBuffer b)"
  then have "k < 32 * (rows b * cols b)" using wf by (simp add: wellFormed_def mult_ac)
  then show "charBuffer (setMessage b msg rnd) ! k =
           (if even k
            then wrapFrom (length (chars b)) (cellTo b msg rnd (k div 32)) (charBuffer b ! (k + 1))
            else Number (cellTo b msg rnd (k div 32)))"
    using cl k by (simp add: setMessage_state)
qed

lemma setMessage_wellFormed: "wellFormed b \<Longrightarrow> wellFormed (setMessage b msg rnd)"
  by (simp add: wellFormed_def setMessage_fields setMessage_buffer(1))

lemma slot_index:
  assumes "wellFormed b" and "c < rows b * cols b" and "v < 16"
  shows "32 * c + 2 * v + 1 < length (charBuffer b)"
    and "(32 * c + 2 * v) div 32 = c" and "(32 * c + 2 * v + 1) div 32 = c"
proof -
  have "Suc c \<le> rows b * cols b" using assms(2) by simp
  then have "32 * Suc c \<le> 32 * (rows b * cols b)" by (simp only: mult_le_mono2)
  then show "32 * c + 2 * v + 1 < length (charBuffer b)"
    using assms(1,3) by (simp add: wellFormed_def mult.commute mult.left_commute)
  show "(32 * c + 2 * v) div 32 = c" using assms(3) by (intro div_nat_eqI) simp_all
  show "(32 * c + 2 * v + 1) div 32 = c" using assms(3) by (intro div_nat_eqI) simp_all
qed

lemma setMessage_slots:
  assumes wf: "wellFormed b" and c: "c < rows b * cols b" and v: "v < 16"
  shows "slotTo (setMessage b msg rnd) c v = Number (cellTo b msg rnd c)"
    and "slotFrom (setMessage b msg rnd) c v =
           wrapFrom (length (chars b)) (cellTo b msg rnd c) (slotTo b c v)"
proof -
  have vpc: "verticesPerChar b = 16" using wf by (simp add: wellFormed_def)
  note ix = slot_index [OF wf c v]
  have k1: "32 * c + 2 * v + 1 < length (charBuffer b)" by (rule ix(1))
  then have k0: "32 * c + 2 * v < length (charBuffer b)" by simp
  show "slotTo (setMessage b msg rnd) c v = Number (cellTo b msg rnd c)"
    using setMessage_buffer(2) [OF wf k1, of msg rnd] k1 ix(3)
    by (simp add: slotTo_def js_get_def setMessage_fields vpc setMessage_buffer(1) [OF wf])
  show "slotFrom (setMessage b msg rnd) c v =
           wrapFrom (length (chars b)) (cellTo b msg rnd c) (slotTo b c v)"
    using setMessage_buffer(2) [OF wf k0, of msg rnd] k0 k1 ix(2)
    by (simp add: slotFrom_def slotTo_def js_get_def setMessage_fields vpc
        setMessage_buffer(1) [OF wf])
qed


section \<open>Messages: text and glyph indices\<close>

lemma indexOf_absent: "x \<notin> set xs \<Longrightarrow> indexOf xs x = - 1"
  by (induction xs) (auto simp add: Let_def)

lemma indexOf_nonneg: "indexOf xs x = - 1 \<or> 0 \<le> indexOf xs x"
  by (induction xs) (auto simp add: Let_def)

lemma floor_jitter:
  assumes "0 \<le> r" and "r < 1"
  shows "\<lfloor>real_of_int g + r * (1 / 10)\<rfloor> = g"
proof -
  have "\<lfloor>r * (1 / 10)\<rfloor> = 0" using assms by (simp add: floor_eq_iff)
  then show ?thesis by (simp add: floor_add_int)
qed

lemma cell_of_row_col:
  assumes "j < (r::nat)" and "i < (m::nat)"
  shows "j * m + i < r * m" and "(j * m + i) div m = j" and "(j * m + i) mod m = i"
proof -
  have "Suc j \<le> r" using assms(1) by simp
  then have "Suc j * m \<le> r * m" by (rule mult_le_mono1)
  then show "j * m + i < r * m" using assms(2) by simp
  show "(j * m + i) div m = j" using assms(2) by simp
  show "(j * m + i) mod m = i" using assms(2) by simp
qed


section \<open>Messages: from and to\<close>

lemma demo_text:
  "toUpperCase (str ''AB'') = [65, 66]"
  "toUpperCase (str ''B'') = [66]"
  "toUpperCase (str ''A'') = [65]"
  "str ''AB'' \<noteq> []" "str ''A'' \<noteq> []" "str ''B'' \<noteq> []"
  by (simp_all add: toUpperCase_def toUpperCase_unit_def str_def)

lemma cellTo_glyph:
  assumes "0 \<le> rnd c" and "rnd c < 1"
  shows "\<lfloor>cellTo b msg rnd c\<rfloor> = glyphIndex (chars b) (rowText msg (c div cols b)) (c mod cols b)"
  unfolding cellTo_def using assms by (rule floor_jitter [of "rnd c"])

lemma setMessage_glyph:
  assumes "wellFormed b" and "c < rows b * cols b" and "v < 16"
      and "0 \<le> rnd c" and "rnd c < 1"
  shows "glyphOf (slotTo (setMessage b msg rnd) c v) =
           Some (glyphIndex (chars b) (rowText msg (c div cols b)) (c mod cols b))"
  using assms(4,5)
  by (simp add: setMessage_slots(1) [OF assms(1-3)] glyphOf_def cellTo_glyph)

text \<open>
  Claim C3. On a well-formed board, for every vertex slot of every cell: when the slot
  held the target \<open>previous_to\<close> before \<^verbatim>\<open>setMessage\<close> and holds \<open>new_to\<close> after it, the
  new from value is \<open>previous_to\<close>, unless the floor of \<open>new_to\<close> is below the floor of
  \<open>previous_to\<close>, in which case it is \<open>previous_to\<close> minus the number of glyphs.
\<close>

theorem setMessage_from_is_previous_to:
  assumes "wellFormed b" and "c < rows b * cols b" and "v < 16"
      and "slotTo b c v = Number previous_to"
      and "slotTo (setMessage b msg rnd) c v = Number new_to"
  shows "slotFrom (setMessage b msg rnd) c v =
           Number (if \<lfloor>new_to\<rfloor> < \<lfloor>previous_to\<rfloor>
                   then previous_to - real (length (chars b)) else previous_to)"
proof -
  have "new_to = cellTo b msg rnd c"
    using assms(5) by (simp add: setMessage_slots(1) [OF assms(1-3)])
  then show ?thesis
    by (simp add: setMessage_slots(2) [OF assms(1-3)] assms(4) wrapFrom_def)
qed

lemma demo_AB_cell0:
  "slotTo demoBoard 0 0 = Number 3"
  "slotTo (setMessage demoBoard [str ''AB''] midRandom) 0 0 = Number (1 / 20)"
  "slotFrom (setMessage demoBoard [str ''AB''] midRandom) 0 0 = Number (- 1)"
proof -
  have c: "(0::nat) < rows demoBoard * cols demoBoard" and v: "(0::nat) < 16"
    by (simp_all add: demoBoard_fields)
  show a: "slotTo demoBoard 0 0 = Number 3"
    by (simp add: slotTo_def js_get_def demoBoard_fields)
  have t: "cellTo demoBoard [str ''AB''] midRandom 0 = 1 / 20"
    by (simp add: cellTo_def glyphIndex_def rowText_def demo_text demoBoard_fields
        midRandom_def Let_def)
  show "slotTo (setMessage demoBoard [str ''AB''] midRandom) 0 0 = Number (1 / 20)"
    by (simp add: setMessage_slots(1) [OF demoBoard_wellFormed c v] t)
  show "slotFrom (setMessage demoBoard [str ''AB''] midRandom) 0 0 = Number (- 1)"
    by (simp add: setMessage_slots(2) [OF demoBoard_wellFormed c v] t a wrapFrom_def
        demoBoard_fields)
qed

theorem setMessage_from_is_previous_to_witness:
  "wellFormed demoBoard \<and> (0::nat) < rows demoBoard * cols demoBoard \<and>
   slotTo demoBoard 0 0 = Number 3 \<and>
   slotTo (setMessage demoBoard [str ''AB''] midRandom) 0 0 = Number (1 / 20) \<and>
   slotFrom (setMessage demoBoard [str ''AB''] midRandom) 0 0 = Number (3 - 4)"
  using setMessage_from_is_previous_to [of demoBoard 0 0 3 "[str ''AB'']" midRandom "1 / 20"]
  by (simp add: demoBoard_wellFormed demoBoard_fields demo_AB_cell0(1,2))


lemma demo_B_then_A:
  "slotTo (setMessage demoBoard [str ''B''] midRandom) 0 0 = Number (21 / 20)"
  "slotTo (setMessage (setMessage demoBoard [str ''B''] midRandom) [str ''A''] zeroRandom) 0 0
     = Number 0"
  "slotFrom (setMessage (setMessage demoBoard [str ''B''] midRandom) [str ''A''] zeroRandom) 0 0
     = Number (- (59 / 20))"
proof -
  let ?b1 = "setMessage demoBoard [str ''B''] midRandom"
  have c: "(0::nat) < rows demoBoard * cols demoBoard" and v: "(0::nat) < 16"
    by (simp_all add: demoBoard_fields)
  have wf1: "wellFormed ?b1" by (rule setMessage_wellFormed [OF demoBoard_wellFormed])
  have c1: "(0::nat) < rows ?b1 * cols ?b1"
    by (simp add: setMessage_fields demoBoard_fields)
  have t1: "cellTo demoBoard [str ''B''] midRandom 0 = 21 / 20"
    by (simp add: cellTo_def glyphIndex_def rowText_def demo_text demoBoard_fields
        midRandom_def Let_def)
  have t2: "cellTo ?b1 [str ''A''] zeroRandom 0 = 0"
    by (simp add: cellTo_def glyphIndex_def rowText_def demo_text demoBoard_fields
        setMessage_fields zeroRandom_def Let_def)
  show a: "slotTo ?b1 0 0 = Number (21 / 20)"
    by (simp add: setMessage_slots(1) [OF demoBoard_wellFormed c v] t1)
  show "slotTo (setMessage ?b1 [str ''A''] zeroRandom) 0 0 = Number 0"
    by (simp add: setMessage_slots(1) [OF wf1 c1 v] t2)
  show "slotFrom (setMessage ?b1 [str ''A''] zeroRandom) 0 0 = Number (- (59 / 20))"
    by (simp add: setMessage_slots(2) [OF wf1 c1 v] t2 a wrapFrom_def
        setMessage_fields demoBoard_fields)
qed

text \<open>
  Claim C4, as amended. On a well-formed board, for every vertex slot of every cell
  whose new target has a smaller floor than its previous target \<open>previous_to\<close>, the new
  from value written by \<^verbatim>\<open>setMessage\<close> is \<open>previous_to\<close> minus the number of glyphs, and
  the floor of that value is the floor of \<open>previous_to\<close> minus the number of glyphs. The
  from value itself keeps the fraction that \<^verbatim>\<open>Math.random()\<close> added to the previous
  target: in the counterexample below the previous target is 1.05 with floor 1, and
  the from value is -2.95, not 1 - 4.
\<close>

theorem setMessage_wrap_from:
  assumes "wellFormed b" and "c < rows b * cols b" and "v < 16"
      and "slotTo b c v = Number previous_to"
      and "slotTo (setMessage b msg rnd) c v = Number new_to"
      and "\<lfloor>new_to\<rfloor> < \<lfloor>previous_to\<rfloor>"
  shows "slotFrom (setMessage b msg rnd) c v = Number (previous_to - real (length (chars b))) \<and>
         \<lfloor>previous_to - real (length (chars b))\<rfloor> = \<lfloor>previous_to\<rfloor> - int (length (chars b))"
proof -
  have "new_to = cellTo b msg rnd c"
    using assms(5) by (simp add: setMessage_slots(1) [OF assms(1-3)])
  then have "slotFrom (setMessage b msg rnd) c v = Number (previous_to - real (length (chars b)))"
    using assms(6) by (simp add: setMessage_slots(2) [OF assms(1-3)] assms(4) wrapFrom_def)
  moreover have "\<lfloor>previous_to - real (length (chars b))\<rfloor> = \<lfloor>previous_to\<rfloor> - int (length (chars b))"
    using floor_diff_of_int [of previous_to "int (length (chars b))"] by simp
  ultimately show ?thesis by simp
qed

theorem setMessage_wrap_from_witness:
  "wellFormed (setMessage demoBoard [str ''B''] midRandom) \<and>
   slotTo (setMessage demoBoard [str ''B''] midRandom) 0 0 = Number (21 / 20) \<and>
   slotTo (setMessage (setMessage demoBoard [str ''B''] midRandom) [str ''A''] zeroRandom) 0 0
     = Number 0 \<and>
   \<lfloor>0 :: real\<rfloor> < \<lfloor>21 / 20 :: real\<rfloor> \<and>
   slotFrom (setMessage (setMessage demoBoard [str ''B''] midRandom) [str ''A''] zeroRandom) 0 0
     = Number (21 / 20 - 4) \<and>
   \<lfloor>21 / 20 - 4 :: real\<rfloor> = 1 - 4"
  using setMessage_wrap_from [of "setMessage demoBoard [str ''B''] midRandom" 0 0 "21 / 20"
      "[str ''A'']" zeroRandom 0]
  by (simp add: setMessage_wellFormed [OF demoBoard_wellFormed] setMessage_fields
      demoBoard_fields demo_B_then_A(1,2))

theorem setMessage_wrap_from_counterexample:
  "glyphOf (slotTo (setMessage demoBoard [str ''B''] midRandom) 0 0) = Some 1 \<and>
   glyphOf (slotTo (setMessage (setMessage demoBoard [str ''B''] midRandom) [str ''A''] zeroRandom) 0 0)
     = Some 0 \<and>
   slotFrom (setMessage (setMessage demoBoard [str ''B''] midRandom) [str ''A''] zeroRandom) 0 0
     = Number (- (59 / 20)) \<and>
   slotFrom (setMessage (setMessage demoBoard [str ''B''] midRandom) [str ''A''] zeroRandom) 0 0
     \<noteq> Number (1 - real (length (chars demoBoard)))"
  by (simp add: demo_B_then_A glyphOf_def demoBoard_fields)


section \<open>Messages: sequences of calls\<close>

lemma setMessages_snoc:
  "setMessages b (calls @ [(msg, rnd)]) = setMessage (setMessages b calls) msg rnd"
  by (simp add: setMessages_def)

lemma setMessages_keep:
  "wellFormed b \<Longrightarrow> wellFormed (setMessages b calls)"
  "rows (setMessages b calls) = rows b"
  "cols (setMessages b calls) = cols b"
proof (induction calls rule: rev_induct)
  case Nil
  { case 1 then show ?case by (simp add: setMessages_def) }
  { case 2 show ?case by (simp add: setMessages_def) }
  { case 3 show ?case by (simp add: setMessages_def) }
next
  case (snoc x calls)
  { case 1 then show ?case
      by (cases x) (simp add: setMessages_snoc setMessage_wellFormed snoc(1)) }
  { case 2 show ?case by (cases x) (simp add: setMessages_snoc setMessage_fields snoc(2)) }
  { case 3 show ?case by (cases x) (simp add: setMessages_snoc setMessage_fields snoc(3)) }
qed

lemma SolariBoard_slots:
  assumes "c < opt_rows opts * opt_cols opts" and "v < 16"
  shows "slotFrom (fst (SolariBoard g opts)) c v =
           Number (real_of_int (int (length (opt_chars opts)) - 1))"
    and "slotTo (fst (SolariBoard g opts)) c v =
           Number (real_of_int (int (length (opt_chars opts)) - 1))"
proof -
  have r: "c < rows (fst (SolariBoard g opts)) * cols (fst (SolariBoard g opts))"
    using assms(1) by (simp add: SolariBoard_fields)
  from slot_index(1) [OF SolariBoard_wellFormed r assms(2)]
  have k: "32 * c + 2 * v + 1 < 2 * 16 * opt_cols opts * opt_rows opts"
    by (simp add: SolariBoard_fields)
  then have k0: "32 * c + 2 * v < 2 * 16 * opt_cols opts * opt_rows opts" by simp
  show "slotFrom (fst (SolariBoard g opts)) c v =
           Number (real_of_int (int (length (opt_chars opts)) - 1))"
    using k0 by (simp add: slotFrom_def js_get_def SolariBoard_fields)
  show "slotTo (fst (SolariBoard g opts)) c v =
           Number (real_of_int (int (length (opt_chars opts)) - 1))"
    using k by (simp add: slotTo_def js_get_def SolariBoard_fields)
qed

lemma wrapFrom_Number: "\<exists>f. wrapFrom n t (Number x) = Number f"
  by (simp add: wrapFrom_def)

lemma setMessages_uniform:
  assumes c: "c < opt_rows opts * opt_cols opts"
  shows "\<exists>f t. \<forall>v<16. slotFrom (setMessages (fst (SolariBoard g opts)) calls) c v = Number f \<and>
                   slotTo (setMessages (fst (SolariBoard g opts)) calls) c v = Number t"
proof (induction calls rule: rev_induct)
  case Nil
  show ?case using SolariBoard_slots [OF c] by (simp add: setMessages_def)
next
  case (snoc x calls)
  let ?b = "setMessages (fst (SolariBoard g opts)) calls"
  obtain msg rnd where x: "x = (msg, rnd)" by (cases x)
  obtain f t where ft: "\<forall>v<16. slotFrom ?b c v = Number f \<and> slotTo ?b c v = Number t"
    using snoc by blast
  have wf: "wellFormed ?b" by (rule setMessages_keep(1) [OF SolariBoard_wellFormed])
  have cb: "c < rows ?b * cols ?b" using c by (simp add: setMessages_keep SolariBoard_fields)
  obtain f' where f': "wrapFrom (length (chars ?b)) (cellTo ?b msg rnd c) (Number t) = Number f'"
    using wrapFrom_Number by blast
  have "\<forall>v<16. slotFrom (setMessage ?b msg rnd) c v = Number f' \<and>
               slotTo (setMessage ?b msg rnd) c v = Number (cellTo ?b msg rnd c)"
    using ft f' by (simp add: setMessage_slots [OF wf cb])
  then show ?case unfolding x setMessages_snoc by blast
qed

text \<open>
  Claim C2. After construction and any sequence of \<^verbatim>\<open>setMessage\<close> calls, whatever the
  messages and the random values, any two of the 16 vertex slots of a cell hold the
  same from value and the same to value, and both are numbers.
\<close>

theorem setMessages_cell_pairs_identical:
  assumes "c < opt_rows opts * opt_cols opts" and "v < 16" and "w < 16"
  shows "slotFrom (setMessages (fst (SolariBoard g opts)) calls) c v =
           slotFrom (setMessages (fst (SolariBoard g opts)) calls) c w \<and>
         slotTo (setMessages (fst (SolariBoard g opts)) calls) c v =
           slotTo (setMessages (fst (SolariBoard g opts)) calls) c w \<and>
         slotFrom (setMessages (fst (SolariBoard g opts)) calls) c v \<noteq> Undefined \<and>
         slotTo (setMessages (fst (SolariBoard g opts)) calls) c v \<noteq> Undefined"
  using setMessages_uniform [OF assms(1), of g calls] assms(2,3) by auto

theorem setMessages_cell_pairs_identical_witness:
  "(0::nat) < opt_rows demoOptions * opt_cols demoOptions \<and> (5::nat) < 16 \<and> (0::nat) < 16 \<and>
   slotFrom (setMessages (fst (SolariBoard [] demoOptions)) [([str ''AB''], midRandom)]) 0 5
     = Number (- 1) \<and>
   slotTo (setMessages (fst (SolariBoard [] demoOptions)) [([str ''AB''], midRandom)]) 0 5
     = Number (1 / 20)"
proof -
  have B: "setMessages (fst (SolariBoard [] demoOptions)) [([str ''AB''], midRandom)] =
      setMessage demoBoard [str ''AB''] midRandom"
    by (simp add: setMessages_def demoBoard_def)
  have p: "(0::nat) < opt_rows demoOptions * opt_cols demoOptions"
    by (simp add: demoOptions_def)
  have "slotFrom (setMessage demoBoard [str ''AB''] midRandom) 0 5 =
          slotFrom (setMessage demoBoard [str ''AB''] midRandom) 0 0 \<and>
        slotTo (setMessage demoBoard [str ''AB''] midRandom) 0 5 =
          slotTo (setMessage demoBoard [str ''AB''] midRandom) 0 0"
    using setMessages_cell_pairs_identical [OF p, of 5 0 "[]" "[([str ''AB''], midRandom)]"]
    unfolding B by simp
  then show ?thesis unfolding B using p by (simp add: demo_AB_cell0)
qed


section \<open>Messages: case, missing glyphs and the bounds of the grid\<close>

lemma toUpperCase_Cons: "toUpperCase (c # s) = toUpperCase_unit c @ toUpperCase s"
  by (simp add: toUpperCase_def)

lemma toLowerCase_Cons: "toLowerCase (c # s) = toLowerCase_unit c @ toLowerCase s"
  by (simp add: toLowerCase_def)

lemma toUpperCase_append: "toUpperCase (s @ t) = toUpperCase s @ toUpperCase t"
  by (simp add: toUpperCase_def)

lemma case_unit_nonempty: "toUpperCase_unit c \<noteq> []" "toLowerCase_unit c \<noteq> []"
  by (simp_all add: toUpperCase_unit_def toLowerCase_unit_def)



lemma ascii_unit_case:
  assumes "c < 128"
  shows "toUpperCase (toLowerCase_unit c) = toUpperCase_unit c"
    and "toUpperCase (toUpperCase_unit c) = toUpperCase_unit c"
    and "length (toUpperCase_unit c) = 1"
    and "list_all (\<lambda>c. c < 128) (toUpperCase_unit c)"
    and "list_all (\<lambda>c. c < 128) (toLowerCase_unit c)"
  using assms
  by (auto simp add: toUpperCase_def toUpperCase_unit_def toLowerCase_unit_def)

lemma asciiLine_case:
  assumes "asciiLine l"
  shows "toUpperCase (toLowerCase l) = toUpperCase l"
    and "toUpperCase (toUpperCase l) = toUpperCase l"
    and "length (toUpperCase l) = length l"
  using assms
  by (induction l)
     (simp_all add: asciiLine_def toUpperCase_Cons toLowerCase_Cons toUpperCase_append
        ascii_unit_case, simp_all add: toUpperCase_def toLowerCase_def)

lemma asciiLine_upper_nth:
  assumes "asciiLine l" and "i < length l"
  shows "toUpperCase [l ! i] = [toUpperCase l ! i]"
  using assms
proof (induction l arbitrary: i)
  case Nil
  then show ?case by simp
next
  case (Cons c l)
  then have c: "c < 128" and l: "asciiLine l" by (simp_all add: asciiLine_def)
  obtain u where u: "toUpperCase_unit c = [u]"
    using ascii_unit_case(3) [OF c] by (cases "toUpperCase_unit c") simp_all
  show ?case
  proof (cases i)
    case 0
    then show ?thesis by (simp add: toUpperCase_Cons u) (simp add: toUpperCase_def)
  next
    case (Suc k)
    then show ?thesis using Cons.IH [OF l, of k] Cons.prems(2)
      by (simp add: toUpperCase_Cons u)
  qed
qed


lemma take_toUpperCase_take: "take n (toUpperCase (take n l)) = take n (toUpperCase l)"
proof (induction l arbitrary: n)
  case Nil
  show ?case by simp
next
  case (Cons c l)
  show ?case
  proof (cases n)
    case 0
    then show ?thesis by simp
  next
    case (Suc k)
    let ?m = "Suc k - length (toUpperCase_unit c)"
    have "0 < length (toUpperCase_unit c)"
      using case_unit_nonempty(1) [of c] by (cases "toUpperCase_unit c") simp_all
    then have m: "?m \<le> k" by arith
    have "take ?m (toUpperCase (take k l)) = take ?m (take k (toUpperCase (take k l)))"
      using m by (simp add: min_def)
    also have "\<dots> = take ?m (take k (toUpperCase l))" by (simp only: Cons.IH)
    also have "\<dots> = take ?m (toUpperCase l)" using m by (simp add: min_def)
    finally show ?thesis by (simp add: Suc toUpperCase_Cons)
  qed
qed

lemma glyphIndex_take: "i < n \<Longrightarrow> glyphIndex cs (take n r) i = glyphIndex cs r i"
  by (simp add: glyphIndex_def Let_def)

lemma glyphIndex_rowText_clip:
  assumes "j < r" and "i < m"
  shows "glyphIndex cs (rowText (map (take m) (take r msg)) j) i = glyphIndex cs (rowText msg j) i"
proof (cases "j < length msg \<and> msg ! j \<noteq> []")
  case True
  then have "rowText (map (take m) (take r msg)) j = toUpperCase (take m (msg ! j))"
    using assms by (simp add: rowText_def)
  moreover have "rowText msg j = toUpperCase (msg ! j)" using True by (simp add: rowText_def)
  moreover have "glyphIndex cs (toUpperCase (take m (msg ! j))) i =
      glyphIndex cs (take m (toUpperCase (take m (msg ! j)))) i"
    by (simp only: glyphIndex_take [OF assms(2)])
  moreover have "glyphIndex cs (toUpperCase (msg ! j)) i =
      glyphIndex cs (take m (toUpperCase (msg ! j))) i"
    by (simp only: glyphIndex_take [OF assms(2)])
  ultimately show ?thesis by (simp only: take_toUpperCase_take)
next
  case False
  then have "rowText (map (take m) (take r msg)) j = []" "rowText msg j = []"
    using assms by (auto simp add: rowText_def toUpperCase_def)
  then show ?thesis by simp
qed

lemma cellTo_clip:
  assumes "c < rows b * cols b"
  shows "cellTo b (map (take (cols b)) (take (rows b) msg)) rnd c = cellTo b msg rnd c"
proof -
  have m: "0 < cols b" using assms by (cases "cols b") simp_all
  have j: "c div cols b < rows b"
    using assms m by (simp add: less_mult_imp_div_less)
  have i: "c mod cols b < cols b" using m by simp
  show ?thesis
    by (simp add: cellTo_def glyphIndex_rowText_clip [OF j i])
qed

lemma setMessage_clip:
  "setMessage b (map (take (cols b)) (take (rows b) msg)) rnd = setMessage b msg rnd"
proof -
  have "fold (\<lambda>c. fillCharBuffer b (cellTo b (map (take (cols b)) (take (rows b) msg)) rnd c))
          [0..<rows b * cols b] st =
        fold (\<lambda>c. fillCharBuffer b (cellTo b msg rnd c)) [0..<rows b * cols b] st" for st
    by (rule fold_cong) (simp_all add: cellTo_clip)
  then show ?thesis by (simp add: setMessage_state)
qed

lemma glyphIndex_cases:
  "length r \<le> i \<Longrightarrow> glyphIndex cs r i = int (length cs) - 1"
  "i < length r \<Longrightarrow> r ! i \<notin> set cs \<Longrightarrow> glyphIndex cs r i = int (length cs) - 1"
  "i < length r \<Longrightarrow> glyphIndex cs r i =
     (if indexOf cs (r ! i) \<noteq> - 1 then indexOf cs (r ! i) else int (length cs) - 1)"
  by (simp_all add: glyphIndex_def indexOf_absent Let_def)

lemma rowText_rows:
  "length msg \<le> j \<Longrightarrow> rowText msg j = []"
  "j < length msg \<Longrightarrow> rowText msg j = toUpperCase (msg ! j)"
  by (auto simp add: rowText_def toUpperCase_def)

lemma rowText_ascii:
  assumes "j < length msg" and "asciiLine (msg ! j)"
  shows "length (rowText msg j) = length (msg ! j)"
    and "i < length (msg ! j) \<Longrightarrow> toUpperCase [msg ! j ! i] = [rowText msg j ! i]"
  using assms by (simp_all add: rowText_rows(2) asciiLine_case(3) asciiLine_upper_nth)

lemma setMessage_glyph_cell:
  assumes "wellFormed b" and "\<forall>k. 0 \<le> rnd k \<and> rnd k < 1"
      and "j < rows b" and "i < cols b" and "v < 16"
  shows "glyphOf (slotTo (setMessage b msg rnd) (j * cols b + i) v) =
           Some (glyphIndex (chars b) (rowText msg j) i)"
proof -
  note rc = cell_of_row_col [OF assms(3,4)]
  have r: "0 \<le> rnd (j * cols b + i)" "rnd (j * cols b + i) < 1" using assms(2) by simp_all
  show ?thesis
    unfolding setMessage_glyph [where rnd = rnd, OF assms(1) rc(1) assms(5) r] rc(2,3) ..
qed


lemma demo_boards:
  "chars kelvinBoard = [75, 32]" "rows kelvinBoard = 1" "cols kelvinBoard = 1"
  "wellFormed kelvinBoard"
  "chars sharpBoard = [83, 32]" "rows sharpBoard = 1" "cols sharpBoard = 3"
  "wellFormed sharpBoard"
  "chars abcBoard = [65, 66, 67, 32]" "rows abcBoard = 1" "cols abcBoard = 3"
  "wellFormed abcBoard"
  by (simp_all add: kelvinBoard_def sharpBoard_def abcBoard_def SolariBoard_fields
      SolariBoard_wellFormed setMessage_fields setMessage_wellFormed demoBoard_fields
      demoBoard_wellFormed str_def)

lemma demo_random:
  "\<forall>k. 0 \<le> zeroRandom k \<and> zeroRandom k < 1" "\<forall>k. 0 \<le> midRandom k \<and> midRandom k < 1"
  by (simp_all add: zeroRandom_def midRandom_def)

lemma abcBoard_shows:
  "glyphOf (slotTo abcBoard 0 0) = Some 0"
  "glyphOf (slotTo abcBoard 1 0) = Some 1"
  "glyphOf (slotTo abcBoard 2 0) = Some 2"
proof -
  have r: "(0::nat) < rows demoBoard" and v: "(0::nat) < 16"
    and c: "(0::nat) < cols demoBoard" "(1::nat) < cols demoBoard" "(2::nat) < cols demoBoard"
    by (simp_all add: demoBoard_fields)
  have ix: "0 * cols demoBoard + 0 = 0" "0 * cols demoBoard + 1 = 1" "0 * cols demoBoard + 2 = 2"
    by simp_all
  note g = setMessage_glyph_cell [OF demoBoard_wellFormed demo_random(1) r _ v,
      where msg = "[str ''ABC'']"]
  have t: "rowText [str ''ABC''] 0 = [65, 66, 67]"
    by (simp add: rowText_def toUpperCase_def toUpperCase_unit_def str_def)
  show "glyphOf (slotTo abcBoard 0 0) = Some 0"
    using g [OF c(1)] unfolding ix abcBoard_def
    by (simp add: t glyphIndex_def demoBoard_fields Let_def)
  show "glyphOf (slotTo abcBoard 1 0) = Some 1"
    using g [OF c(2)] unfolding ix abcBoard_def
    by (simp add: t glyphIndex_def demoBoard_fields Let_def)
  show "glyphOf (slotTo abcBoard 2 0) = Some 2"
    using g [OF c(3)] unfolding ix abcBoard_def
    by (simp add: t glyphIndex_def demoBoard_fields Let_def)
qed





text \<open>
  Claim C8, as amended. On a well-formed board, for a cell \<open>(j, i)\<close> of the grid:
  when the upper-cased text of line \<open>j\<close> has at position \<open>i\<close> a character that is not
  in the glyph set, \<^verbatim>\<open>setMessage\<close> leaves the blank glyph, the number of glyphs minus
  one, in every vertex slot of the cell; and when line \<open>j\<close> is ASCII text, this is so
  for the input character at position \<open>i\<close> whose upper-case form \<open>u\<close> is not in the
  glyph set. \<^verbatim>\<open>setMessage\<close> has no failing branch: the lookup answers -1 for a missing
  glyph and the blank index stays. Beyond ASCII the cell of an input character need
  not be the cell its upper-case form lands in: in the counterexample below the sharp
  s (223) before \<open>#\<close> becomes SS, and the cell of \<open>#\<close> shows S.
\<close>

theorem setMessage_missing_glyph_blank:
  assumes "wellFormed b" and "\<forall>k. 0 \<le> rnd k \<and> rnd k < 1"
      and "j < rows b" and "i < cols b" and "v < 16"
  shows "(i < length (rowText msg j) \<and> rowText msg j ! i \<notin> set (chars b) \<longrightarrow>
            glyphOf (slotTo (setMessage b msg rnd) (j * cols b + i) v) =
              Some (int (length (chars b)) - 1)) \<and>
         (j < length msg \<and> asciiLine (msg ! j) \<and> i < length (msg ! j) \<and>
          toUpperCase [msg ! j ! i] = [u] \<and> u \<notin> set (chars b) \<longrightarrow>
            glyphOf (slotTo (setMessage b msg rnd) (j * cols b + i) v) =
              Some (int (length (chars b)) - 1))"
proof (intro conjI impI)
  assume "i < length (rowText msg j) \<and> rowText msg j ! i \<notin> set (chars b)"
  then show "glyphOf (slotTo (setMessage b msg rnd) (j * cols b + i) v) =
              Some (int (length (chars b)) - 1)"
    by (simp add: setMessage_glyph_cell [OF assms] glyphIndex_cases(2))
next
  assume h: "j < length msg \<and> asciiLine (msg ! j) \<and> i < length (msg ! j) \<and>
          toUpperCase [msg ! j ! i] = [u] \<and> u \<notin> set (chars b)"
  then have "i < length (rowText msg j)" and "rowText msg j ! i = u"
    using h rowText_ascii(1) [of j msg] rowText_ascii(2) [of j msg i] by simp_all
  then show "glyphOf (slotTo (setMessage b msg rnd) (j * cols b + i) v) =
              Some (int (length (chars b)) - 1)"
    using h by (simp add: setMessage_glyph_cell [OF assms] glyphIndex_cases(2))
qed

theorem setMessage_missing_glyph_blank_witness:
  "wellFormed abcBoard \<and> (0::nat) < rows abcBoard \<and> (0::nat) < cols abcBoard \<and>
   asciiLine ([str ''#''] ! 0) \<and> toUpperCase [[str ''#''] ! 0 ! 0] = [35] \<and>
   35 \<notin> set (chars abcBoard) \<and>
   glyphOf (slotTo abcBoard 0 0) = Some 0 \<and>
   glyphOf (slotTo (setMessage abcBoard [str ''#''] midRandom) 0 0) = Some 3"
proof -
  have r: "(0::nat) < rows abcBoard" and c: "(0::nat) < cols abcBoard" and v: "(0::nat) < 16"
    by (simp_all add: demo_boards)
  have ix: "0 * cols abcBoard + 0 = 0" by simp
  have blank: "Some (int (length (chars abcBoard)) - 1) = Some 3" by (simp add: demo_boards)
  have a: "asciiLine ([str ''#''] ! 0)" by (simp add: asciiLine_def str_def)
  have u: "toUpperCase [[str ''#''] ! 0 ! 0] = [35]"
    by (simp add: toUpperCase_def toUpperCase_unit_def str_def)
  have n: "35 \<notin> set (chars abcBoard)" by (simp add: demo_boards)
  have l: "(0::nat) < length [str ''#'']" "0 < length ([str ''#''] ! 0)"
    by (simp_all add: str_def)
  note t = setMessage_missing_glyph_blank [OF demo_boards(12) demo_random(2) r c v,
      where msg = "[str ''#'']" and u = 35, unfolded ix blank]
  have "glyphOf (slotTo (setMessage abcBoard [str ''#''] midRandom) 0 0) = Some 3"
    using conjunct2 [OF t] l a u n by blast
  then show ?thesis using demo_boards(12) r c a u n abcBoard_shows(1) by blast
qed

theorem setMessage_missing_glyph_blank_counterexample:
  "[223, 35] ! 1 = (35::nat) \<and> toUpperCase [35] = [35] \<and> 35 \<notin> set (chars sharpBoard) \<and>
   int (length (chars sharpBoard)) - 1 = 1 \<and>
   glyphOf (slotTo (setMessage sharpBoard [[223, 35]] zeroRandom) 1 0) = Some 0"
proof -
  have r: "(0::nat) < rows sharpBoard" and c: "(1::nat) < cols sharpBoard"
    and v: "(0::nat) < 16"
    by (simp_all add: demo_boards)
  have ix: "0 * cols sharpBoard + 1 = 1" by simp
  note g = setMessage_glyph_cell [OF demo_boards(8) demo_random(1) r c v, unfolded ix]
  have "glyphOf (slotTo (setMessage sharpBoard [[223, 35]] zeroRandom) 1 0) = Some 0"
    unfolding g
    by (simp add: rowText_def toUpperCase_def toUpperCase_unit_def glyphIndex_def
        demo_boards Let_def)
  then show ?thesis by (simp add: toUpperCase_def toUpperCase_unit_def demo_boards)
qed

text \<open>
  Claim C9, as amended. On a well-formed board, \<^verbatim>\<open>setMessage\<close> gives the same board
  for a message as for its first \<open>rows\<close> lines cut to their first \<open>cols\<close> characters, so
  lines and characters beyond the grid are ignored. A cell \<open>(j, i)\<close> of the grid gets
  the blank glyph, the number of glyphs minus one, in every vertex slot when line \<open>j\<close>
  is missing or its upper-cased text does not reach position \<open>i\<close>; when line \<open>j\<close> is
  ASCII text, that is when the line itself does not reach position \<open>i\<close>, and a cell the
  line does reach shows the glyph of the upper-case form \<open>u\<close> of its character (the
  blank when \<open>u\<close> is no glyph). Beyond ASCII the upper-cased text can be longer than the
  line: in the counterexample below the line is the sharp s (223) alone, and the
  second cell shows S.
\<close>

theorem setMessage_clips_and_pads:
  assumes "wellFormed b" and "\<forall>k. 0 \<le> rnd k \<and> rnd k < 1"
      and "j < rows b" and "i < cols b" and "v < 16"
  shows "setMessage b msg rnd = setMessage b (map (take (cols b)) (take (rows b) msg)) rnd \<and>
         (length msg \<le> j \<or> length (rowText msg j) \<le> i \<longrightarrow>
            glyphOf (slotTo (setMessage b msg rnd) (j * cols b + i) v) =
              Some (int (length (chars b)) - 1)) \<and>
         (j < length msg \<and> asciiLine (msg ! j) \<and> length (msg ! j) \<le> i \<longrightarrow>
            glyphOf (slotTo (setMessage b msg rnd) (j * cols b + i) v) =
              Some (int (length (chars b)) - 1)) \<and>
         (j < length msg \<and> asciiLine (msg ! j) \<and> i < length (msg ! j) \<and>
          toUpperCase [msg ! j ! i] = [u] \<longrightarrow>
            glyphOf (slotTo (setMessage b msg rnd) (j * cols b + i) v) =
              Some (if indexOf (chars b) u \<noteq> - 1 then indexOf (chars b) u
                    else int (length (chars b)) - 1))"
proof (intro conjI impI)
  show "setMessage b msg rnd = setMessage b (map (take (cols b)) (take (rows b) msg)) rnd"
    by (simp add: setMessage_clip)
next
  assume "length msg \<le> j \<or> length (rowText msg j) \<le> i"
  then have "length (rowText msg j) \<le> i" using rowText_rows(1) [of msg j] by auto
  then show "glyphOf (slotTo (setMessage b msg rnd) (j * cols b + i) v) =
              Some (int (length (chars b)) - 1)"
    by (simp add: setMessage_glyph_cell [OF assms] glyphIndex_cases(1))
next
  assume "j < length msg \<and> asciiLine (msg ! j) \<and> length (msg ! j) \<le> i"
  then have "length (rowText msg j) \<le> i" using rowText_ascii(1) [of j msg] by simp
  then show "glyphOf (slotTo (setMessage b msg rnd) (j * cols b + i) v) =
              Some (int (length (chars b)) - 1)"
    by (simp add: setMessage_glyph_cell [OF assms] glyphIndex_cases(1))
next
  assume h: "j < length msg \<and> asciiLine (msg ! j) \<and> i < length (msg ! j) \<and>
          toUpperCase [msg ! j ! i] = [u]"
  then have "i < length (rowText msg j)" and "rowText msg j ! i = u"
    using h rowText_ascii(1) [of j msg] rowText_ascii(2) [of j msg i] by simp_all
  then show "glyphOf (slotTo (setMessage b msg rnd) (j * cols b + i) v) =
              Some (if indexOf (chars b) u \<noteq> - 1 then indexOf (chars b) u
                    else int (length (chars b)) - 1)"
    by (simp add: setMessage_glyph_cell [OF assms] glyphIndex_cases(3))
qed


theorem setMessage_clips_and_pads_witness:
  "wellFormed abcBoard \<and> asciiLine (str ''ca'') \<and>
   glyphOf (slotTo abcBoard 1 0) = Some 1 \<and> glyphOf (slotTo abcBoard 2 0) = Some 2 \<and>
   setMessage abcBoard [str ''ca'', str ''ABCA''] midRandom =
     setMessage abcBoard [str ''ca''] midRandom \<and>
   setMessage abcBoard [str ''ABCA''] midRandom = setMessage abcBoard [str ''ABC''] midRandom \<and>
   glyphOf (slotTo (setMessage abcBoard [str ''ca'', str ''ABCA''] midRandom) 1 0) = Some 0 \<and>
   glyphOf (slotTo (setMessage abcBoard [str ''ca'', str ''ABCA''] midRandom) 2 0) = Some 3"
proof -
  let ?M = "[str ''ca'', str ''ABCA'']"
  have r: "(0::nat) < rows abcBoard" and v: "(0::nat) < 16"
    and c1: "(1::nat) < cols abcBoard" and c2: "(2::nat) < cols abcBoard"
    by (simp_all add: demo_boards)
  have ix: "0 * cols abcBoard + 1 = 1" "0 * cols abcBoard + 2 = 2" by simp_all
  have blank: "Some (int (length (chars abcBoard)) - 1) = Some 3" by (simp add: demo_boards)
  have clip: "map (take (cols abcBoard)) (take (rows abcBoard) ?M) = [str ''ca'']"
    "map (take (cols abcBoard)) (take (rows abcBoard) [str ''ABCA'']) = [str ''ABC'']"
    by (simp_all add: demo_boards str_def)
  have a: "asciiLine (str ''ca'')" "asciiLine (?M ! 0)" by (simp_all add: asciiLine_def str_def)
  have l: "(0::nat) < length ?M" "length (?M ! 0) \<le> 2" "1 < length (?M ! 0)"
    by (simp_all add: str_def)
  have u: "toUpperCase [?M ! 0 ! 1] = [65]"
    by (simp add: toUpperCase_def toUpperCase_unit_def str_def)
  have shown: "Some (if indexOf (chars abcBoard) 65 \<noteq> - 1 then indexOf (chars abcBoard) 65
      else int (length (chars abcBoard)) - 1) = Some 0"
    by (simp add: demo_boards)
  note t2 = setMessage_clips_and_pads [OF demo_boards(12) demo_random(2) r c2 v,
      where msg = ?M and u = 65, unfolded ix blank clip]
  note t1 = setMessage_clips_and_pads [OF demo_boards(12) demo_random(2) r c1 v,
      where msg = ?M and u = 65, unfolded ix shown clip]
  note t3 = setMessage_clips_and_pads [OF demo_boards(12) demo_random(2) r c1 v,
      where msg = "[str ''ABCA'']" and u = 65, unfolded clip]
  have e1: "setMessage abcBoard ?M midRandom = setMessage abcBoard [str ''ca''] midRandom"
    by (rule conjunct1 [OF t2])
  have e2: "setMessage abcBoard [str ''ABCA''] midRandom =
      setMessage abcBoard [str ''ABC''] midRandom"
    by (rule conjunct1 [OF t3])
  have p: "glyphOf (slotTo (setMessage abcBoard ?M midRandom) 2 0) = Some 3"
    using conjunct1 [OF conjunct2 [OF conjunct2 [OF t2]]] l a by blast
  have s: "glyphOf (slotTo (setMessage abcBoard ?M midRandom) 1 0) = Some 0"
    using conjunct2 [OF conjunct2 [OF conjunct2 [OF t1]]] l a u by blast
  show ?thesis using demo_boards(12) a(1) abcBoard_shows(2,3) e1 e2 p s by blast
qed

theorem setMessage_clips_and_pads_counterexample:
  "length ([[223::nat]] ! 0) \<le> (1::nat) \<and> int (length (chars sharpBoard)) - 1 = 1 \<and>
   glyphOf (slotTo (setMessage sharpBoard [[223]] zeroRandom) 1 0) = Some 0"
proof -
  have r: "(0::nat) < rows sharpBoard" and c: "(1::nat) < cols sharpBoard"
    and v: "(0::nat) < 16"
    by (simp_all add: demo_boards)
  have ix: "0 * cols sharpBoard + 1 = 1" by simp
  note g = setMessage_glyph_cell [OF demo_boards(8) demo_random(1) r c v, unfolded ix]
  have "glyphOf (slotTo (setMessage sharpBoard [[223]] zeroRandom) 1 0) = Some 0"
    unfolding g
    by (simp add: rowText_def toUpperCase_def toUpperCase_unit_def glyphIndex_def
        demo_boards Let_def)
  then show ?thesis by (simp add: demo_boards)
qed


end
